theory Spec2Isabelle
  imports
    Main
    "HOL-Library.Sublist"
    "HOL-Library.AList"
    "HOL-Library.Char_ord"
    "HOL-Library.List_Lexorder"
    "HOL-Library.Product_Lexorder"
    "HOL-Library.Multiset"
begin

section \<open>Screener document downloader: the discovery, ranking and fetch pipeline\<close>

text \<open>
  The program (\<^verbatim>\<open>screener_app.py\<close>) is one script. Its browser session, the rendered
  page and the HTTP client are outside it; what the script itself computes is modelled
  here: the file downloader \<^verbatim>\<open>download_file\<close>, the skip-if-exists test in front of it,
  the four scan loops over the page's anchors, the sort and the count limit.

  Link texts are modelled as \<^typ>\<open>string\<close> over ASCII: \<^verbatim>\<open>str.lower\<close>, \<^verbatim>\<open>str.strip\<close> and
  the regular-expression classes \<^verbatim>\<open>\d\<close>, \<^verbatim>\<open>\s\<close>, \<^verbatim>\<open>\w\<close> are given on ASCII characters.
\<close>

subsection \<open>The file system and the downloader\<close>

text \<open>
  A file system maps a path to the size in bytes of the file stored there.
  \<^verbatim>\<open>download_file\<close> makes one \<^verbatim>\<open>requests.get\<close> call; what the outside world does with it
  is an \<open>attempt\<close>:
  \<^item> \<open>RequestRaises\<close>: \<^verbatim>\<open>requests.get\<close> or \<^verbatim>\<open>raise_for_status\<close> raises;
  \<^item> \<open>OpenRaises\<close>: \<^verbatim>\<open>mkdir\<close> or \<^verbatim>\<open>open\<close> raises, nothing is written;
  \<^item> \<open>StreamRaises n\<close>: the file was opened for writing (truncated) and \<open>n\<close> bytes were
    written when \<^verbatim>\<open>iter_content\<close> or \<^verbatim>\<open>write\<close> raised;
  \<^item> \<open>Completes n\<close>: the body of \<open>n\<close> bytes was written completely.
  Every exception is caught by \<^verbatim>\<open>except Exception: return False\<close>.
\<close>

type_synonym path = string
type_synonym filesystem = "path \<rightharpoonup> nat"

datatype attempt = RequestRaises | OpenRaises | StreamRaises nat | Completes nat

record world =
  files :: filesystem
  requests :: nat

definition download_file :: "attempt \<Rightarrow> path \<Rightarrow> world \<Rightarrow> bool \<times> world" where
  "download_file att filepath w =
     (let w1 = w\<lparr>requests := requests w + 1\<rparr> in
      case att of
        RequestRaises \<Rightarrow> (False, w1)
      | OpenRaises \<Rightarrow> (False, w1)
      | StreamRaises n \<Rightarrow> (False, w1\<lparr>files := (files w1)(filepath \<mapsto> n)\<rparr>)
      | Completes n \<Rightarrow>
          (if n < 1000
           then (False, w1\<lparr>files := (files w1)(filepath := None)\<rparr>)
           else (True, w1\<lparr>files := (files w1)(filepath \<mapsto> n)\<rparr>)))"

text \<open>
  The fetch step of every category loop:
  \<^verbatim>\<open>if fp.exists() and fp.stat().st_size > T: skip  else: download_file(url, fp)\<close>
  with \<open>T = 5000\<close> for annual reports, credit ratings and quarterly reports and
  \<open>T = 1000\<close> for transcripts and presentations.
\<close>

datatype outcome = Downloaded | Skipped_existing | Failed

datatype category = Annual | Credit | Transcript | Presentation | Quarterly

fun skip_threshold :: "category \<Rightarrow> nat" where
  "skip_threshold Annual = 5000"
| "skip_threshold Credit = 5000"
| "skip_threshold Transcript = 1000"
| "skip_threshold Presentation = 1000"
| "skip_threshold Quarterly = 5000"

definition fp_exists_above :: "nat \<Rightarrow> path \<Rightarrow> world \<Rightarrow> bool" where
  "fp_exists_above t fp w = (case files w fp of None \<Rightarrow> False | Some sz \<Rightarrow> sz > t)"

definition fetch :: "category \<Rightarrow> attempt \<Rightarrow> path \<Rightarrow> world \<Rightarrow> outcome \<times> world" where
  "fetch cat att fp w =
     (if fp_exists_above (skip_threshold cat) fp w then (Skipped_existing, w)
      else (case download_file att fp w of
              (True, w') \<Rightarrow> (Downloaded, w')
            | (False, w') \<Rightarrow> (Failed, w')))"

subsection \<open>Strings: what the script uses of \<^verbatim>\<open>str\<close> and \<^verbatim>\<open>re\<close>\<close>

definition is_space :: "char \<Rightarrow> bool" where
  \<comment> \<open>\<^verbatim>\<open>str.isspace\<close> and \<^verbatim>\<open>\s\<close> on ASCII: tab, LF, VT, FF, CR, FS, GS, RS, US, space\<close>
  "is_space c = (c \<in> set [CHR 0x09, CHR 0x0A, CHR 0x0B, CHR 0x0C, CHR 0x0D,
                            CHR 0x1C, CHR 0x1D, CHR 0x1E, CHR 0x1F, CHR 0x20])"

definition is_digit :: "char \<Rightarrow> bool" where
  "is_digit c = (c \<in> set ''0123456789'')"

definition uppers :: string where
  "uppers = ''ABCDEFGHIJKLMNOPQRSTUVWXYZ''"

definition lowers :: string where
  "lowers = ''abcdefghijklmnopqrstuvwxyz''"

definition is_alpha :: "char \<Rightarrow> bool" where
  \<comment> \<open>the class \<^verbatim>\<open>[A-Za-z]\<close>\<close>
  "is_alpha c = (c \<in> set uppers \<or> c \<in> set lowers)"

definition is_word :: "char \<Rightarrow> bool" where
  \<comment> \<open>the class \<^verbatim>\<open>\w\<close>\<close>
  "is_word c = (is_alpha c \<or> is_digit c \<or> c = CHR ''_'')"

definition lower_char :: "char \<Rightarrow> char" where
  "lower_char c = (case map_of (zip uppers lowers) c of Some d \<Rightarrow> d | None \<Rightarrow> c)"

definition upper_char :: "char \<Rightarrow> char" where
  "upper_char c = (case map_of (zip lowers uppers) c of Some d \<Rightarrow> d | None \<Rightarrow> c)"

definition lower :: "string \<Rightarrow> string" where
  "lower s = map lower_char s"

definition upper :: "string \<Rightarrow> string" where
  "upper s = map upper_char s"

definition strip :: "string \<Rightarrow> string" where
  "strip s = rev (dropWhile is_space (rev (dropWhile is_space s)))"

fun str_in :: "string \<Rightarrow> string \<Rightarrow> bool" where
  \<comment> \<open>\<^verbatim>\<open>sub in s\<close>\<close>
  "str_in sub [] = (sub = [])"
| "str_in sub (c # cs) = (prefix sub (c # cs) \<or> str_in sub cs)"

definition digit_val :: "char \<Rightarrow> nat" where
  "digit_val c = length (takeWhile (\<lambda>d. d \<noteq> c) ''0123456789'')"

definition int_of :: "string \<Rightarrow> nat" where
  \<comment> \<open>\<^verbatim>\<open>int(s)\<close> on a string of decimal digits\<close>
  "int_of s = foldl (\<lambda>a c. 10 * a + digit_val c) 0 s"

definition digit_char :: "nat \<Rightarrow> char" where
  "digit_char n = ''0123456789'' ! (n mod 10)"

definition pad2 :: "nat \<Rightarrow> string" where
  \<comment> \<open>the format \<^verbatim>\<open>{:02d}\<close> and \<^verbatim>\<open>%m\<close>, \<^verbatim>\<open>%d\<close> on numbers below 100\<close>
  "pad2 n = [digit_char (n div 10), digit_char n]"

definition pad4 :: "nat \<Rightarrow> string" where
  \<comment> \<open>the four decimal digits of a number from 1000 to 9999\<close>
  "pad4 n = [digit_char (n div 1000), digit_char (n div 100), digit_char (n div 10), digit_char n]"

definition year_str :: "nat \<Rightarrow> string" where
  \<comment> \<open>\<^verbatim>\<open>%Y\<close> of \<^verbatim>\<open>strftime\<close> as the C library of Linux gives it, on years 1 to 9999: the year
      in decimal and not zero-filled, so that year 999 is \<^verbatim>\<open>999\<close>. (The C libraries of other
      platforms fill to four digits; the two agree from year 1000 on.)\<close>
  "year_str y =
     (if y < 10 then [digit_char y]
      else if y < 100 then [digit_char (y div 10), digit_char y]
      else if y < 1000 then [digit_char (y div 100), digit_char (y div 10), digit_char y]
      else pad4 y)"

text \<open>
  \<^verbatim>\<open>re.search(p, s)\<close> tries the pattern at every position from the left and returns the
  first match. A pattern is given by its matcher at the start of a string.
\<close>

fun re_search :: "(string \<Rightarrow> 'a option) \<Rightarrow> string \<Rightarrow> 'a option" where
  "re_search m [] = m []"
| "re_search m (c # cs) = (case m (c # cs) of Some r \<Rightarrow> Some r | None \<Rightarrow> re_search m cs)"

fun match_year :: "string \<Rightarrow> string option" where
  \<comment> \<open>\<^verbatim>\<open>20\d{2}\<close>; the result is \<^verbatim>\<open>group()\<close>\<close>
  "match_year (a # b # c # d # _) =
     (if a = CHR ''2'' \<and> b = CHR ''0'' \<and> is_digit c \<and> is_digit d then Some [a, b, c, d] else None)"
| "match_year _ = None"

definition take_class :: "(char \<Rightarrow> bool) \<Rightarrow> nat \<Rightarrow> string \<Rightarrow> (string \<times> string) option" where
  \<comment> \<open>exactly \<open>n\<close> characters of a class: the matched text and the rest\<close>
  "take_class P n s =
     (if n \<le> length s \<and> list_all P (take n s) then Some (take n s, drop n s) else None)"

definition spaces1 :: "string \<Rightarrow> string option" where
  \<comment> \<open>\<^verbatim>\<open>\s+\<close>, greedy; in each pattern below the next item is no space character, so giving
      back a space cannot turn a failed match into a match\<close>
  "spaces1 s = (case s of [] \<Rightarrow> None
                | c # cs \<Rightarrow> if is_space c then Some (dropWhile is_space cs) else None)"

definition match_month_year :: "string \<Rightarrow> (string \<times> string) option" where
  \<comment> \<open>\<^verbatim>\<open>([A-Za-z]{3})\s+(\d{4})\<close>; the result is \<^verbatim>\<open>groups()\<close>\<close>
  "match_month_year s =
     (case take_class is_alpha 3 s of None \<Rightarrow> None
      | Some (ms, r1) \<Rightarrow>
          (case spaces1 r1 of None \<Rightarrow> None
           | Some r2 \<Rightarrow>
               (case take_class is_digit 4 r2 of None \<Rightarrow> None
                | Some (yr, r3) \<Rightarrow> Some (ms, yr))))"

definition match_day_with :: "nat \<Rightarrow> string \<Rightarrow> (string \<times> string \<times> string) option" where
  "match_day_with n s =
     (case take_class is_digit n s of None \<Rightarrow> None
      | Some (day, r0) \<Rightarrow>
          (case spaces1 r0 of None \<Rightarrow> None
           | Some r1 \<Rightarrow>
               (case match_month_year r1 of None \<Rightarrow> None
                | Some (ms, yr) \<Rightarrow> Some (day, ms, yr))))"

definition match_day_month_year :: "string \<Rightarrow> (string \<times> string \<times> string) option" where
  \<comment> \<open>\<^verbatim>\<open>(\d{1,2})\s+([A-Za-z]{3})\s+(\d{4})\<close>: two digits are tried first, then one\<close>
  "match_day_month_year s =
     (case match_day_with 2 s of Some r \<Rightarrow> Some r | None \<Rightarrow> match_day_with 1 s)"

definition match_from :: "string \<Rightarrow> string option" where
  \<comment> \<open>\<^verbatim>\<open>from\s+(\w+)\<close>; the result is \<^verbatim>\<open>group(1)\<close>\<close>
  "match_from s =
     (if prefix ''from'' s
      then (case spaces1 (drop 4 s) of None \<Rightarrow> None
            | Some r \<Rightarrow> if takeWhile is_word r = [] then None else Some (takeWhile is_word r))
      else None)"

definition months :: "(string \<times> nat) list" where
  "months = [(''jan'', 1), (''feb'', 2), (''mar'', 3), (''apr'', 4), (''may'', 5), (''jun'', 6),
             (''jul'', 7), (''aug'', 8), (''sep'', 9), (''oct'', 10), (''nov'', 11), (''dec'', 12)]"

definition month_of :: "string \<Rightarrow> nat option" where
  \<comment> \<open>\<^verbatim>\<open>months.get(ms.lower()[:3])\<close>\<close>
  "month_of ms = map_of months (take 3 (lower ms))"

subsection \<open>Dates\<close>

text \<open>
  A \<^verbatim>\<open>datetime(y, m, d)\<close> is the triple, compared lexicographically; the constructor
  raises \<^verbatim>\<open>ValueError\<close> outside the calendar, which is \<open>None\<close> here. The current moment
  and the cutoff computed from it are a proleptic Gregorian day number (\<^verbatim>\<open>toordinal\<close>)
  paired with the microsecond of the day.
\<close>

type_synonym date = "nat \<times> nat \<times> nat"
type_synonym stamp = "nat \<times> nat"

datatype py_error = OverflowError

definition is_leap :: "nat \<Rightarrow> bool" where
  "is_leap y = (y mod 4 = 0 \<and> (y mod 100 \<noteq> 0 \<or> y mod 400 = 0))"

definition days_in_month :: "nat \<Rightarrow> nat \<Rightarrow> nat" where
  "days_in_month y m =
     (if m = 2 then (if is_leap y then 29 else 28)
      else if m \<in> {4, 6, 9, 11} then 30 else 31)"

definition datetime :: "nat \<Rightarrow> nat \<Rightarrow> nat \<Rightarrow> date option" where
  "datetime y m d =
     (if 1 \<le> y \<and> y \<le> 9999 \<and> 1 \<le> m \<and> m \<le> 12 \<and> 1 \<le> d \<and> d \<le> days_in_month y m
      then Some (y, m, d) else None)"

definition days_before_year :: "nat \<Rightarrow> nat" where
  "days_before_year y = (y - 1) * 365 + (y - 1) div 4 - (y - 1) div 100 + (y - 1) div 400"

definition days_before_month :: "nat \<Rightarrow> nat \<Rightarrow> nat" where
  "days_before_month y m = sum_list (map (days_in_month y) [1..<m])"

fun toordinal :: "date \<Rightarrow> nat" where
  "toordinal (y, m, d) = days_before_year y + days_before_month y m + d"

definition midnight :: "date \<Rightarrow> stamp" where
  "midnight d = (toordinal d, 0)"

definition strftime_Ym :: "date \<Rightarrow> string" where
  \<comment> \<open>\<^verbatim>\<open>strftime("%Y-%m")\<close>\<close>
  "strftime_Ym dt = (case dt of (y, m, d) \<Rightarrow> year_str y @ ''-'' @ pad2 m)"

definition strftime_Ymd :: "date \<Rightarrow> string" where
  \<comment> \<open>\<^verbatim>\<open>strftime("%Y-%m-%d")\<close>\<close>
  "strftime_Ymd dt = (case dt of (y, m, d) \<Rightarrow> year_str y @ ''-'' @ pad2 m @ ''-'' @ pad2 d)"

definition cutoff_date :: "stamp \<Rightarrow> nat \<Rightarrow> py_error + stamp option" where
  \<comment> \<open>\<^verbatim>\<open>None if num == 0 else datetime.now() - timedelta(days=num * 365)\<close>; the subtraction
      raises \<^verbatim>\<open>OverflowError\<close> when it leaves year 1\<close>
  "cutoff_date now num =
     (if num = 0 then Inr None
      else if fst now < num * 365 + 1 then Inl OverflowError
      else Inr (Some (fst now - num * 365, snd now)))"

definition before_cutoff :: "stamp option \<Rightarrow> date \<Rightarrow> bool" where
  \<comment> \<open>\<^verbatim>\<open>cutoff and d < cutoff\<close>\<close>
  "before_cutoff cutoff d = (case cutoff of None \<Rightarrow> False | Some c \<Rightarrow> midnight d < c)"

subsection \<open>The rendered page\<close>

text \<open>
  What the script reads of an anchor element: its visible text (\<^verbatim>\<open>link.text\<close>), its
  \<^verbatim>\<open>href\<close> and \<^verbatim>\<open>aria-label\<close> attributes (\<open>None\<close> when the attribute is absent), the texts
  of its ancestors at \<^verbatim>\<open>..\<close>, \<^verbatim>\<open>../..\<close>, \<^verbatim>\<open>../../..\<close> in this order (\<open>None\<close> where
  \<^verbatim>\<open>find_element\<close> raises), and, for a link inside a table cell, the text of the header
  cell \<^verbatim>\<open>hdrs[ci]\<close> at the cell's own index (\<open>None\<close> when one of the structural look-ups
  raises, the cell is not found in its row, or the index is past the headers).
\<close>

record link =
  link_text :: string
  link_href :: "string option"
  aria_label :: "string option"
  ancestor_texts :: "string option list"
  column_header :: "string option"

definition or_empty :: "string option \<Rightarrow> string" where
  \<comment> \<open>\<^verbatim>\<open>x or ""\<close>\<close>
  "or_empty x = (case x of None \<Rightarrow> [] | Some v \<Rightarrow> v)"

subsection \<open>Sorting\<close>

text \<open>
  \<^verbatim>\<open>xs.sort(key=f, reverse=True)\<close> and \<^verbatim>\<open>sorted(xs, reverse=True)\<close>: a stable sort into
  non-increasing key order (elements with equal keys keep their input order).
\<close>

fun insort_desc :: "('a \<Rightarrow> 'k::linorder) \<Rightarrow> 'a \<Rightarrow> 'a list \<Rightarrow> 'a list" where
  "insort_desc f x [] = [x]"
| "insort_desc f x (y # ys) = (if f y \<le> f x then x # y # ys else y # insort_desc f x ys)"

definition sort_desc :: "('a \<Rightarrow> 'k::linorder) \<Rightarrow> 'a list \<Rightarrow> 'a list" where
  "sort_desc f xs = foldr (insort_desc f) xs []"


subsection \<open>Annual reports\<close>

record annual_report =
  ar_year :: nat
  ar_url :: string

definition annual_step ::
  "stamp option \<Rightarrow> annual_report list \<times> string set \<Rightarrow> link \<Rightarrow> annual_report list \<times> string set"
where
  "annual_step annual_cutoff_date st l =
     (case st of (annual_reports, seen) \<Rightarrow>
        let txt = strip (link_text l); href = link_href l; ym = re_search match_year txt in
        (case ym of None \<Rightarrow> st
         | Some g \<Rightarrow>
             if str_in ''financial year'' (lower txt) \<and> str_in ''from'' (lower txt) \<and>
                or_empty href \<noteq> [] \<and> or_empty href \<notin> seen
             then (let year = int_of g in
                   if before_cutoff annual_cutoff_date (year, 12, 31) then st
                   else (annual_reports @ [\<lparr>ar_year = year, ar_url = or_empty href\<rparr>],
                         insert (or_empty href) seen))
             else st))"

definition annual_scan :: "stamp option \<Rightarrow> link list \<Rightarrow> annual_report list" where
  "annual_scan annual_cutoff_date all_links =
     fst (foldl (annual_step annual_cutoff_date) ([], {}) all_links)"

definition annual_ranked :: "stamp \<Rightarrow> nat \<Rightarrow> link list \<Rightarrow> py_error + annual_report list" where
  "annual_ranked now num_annual all_links =
     (case cutoff_date now num_annual of
        Inl e \<Rightarrow> Inl e
      | Inr c \<Rightarrow> Inr (sort_desc ar_year (annual_scan c all_links)))"

subsection \<open>Credit ratings\<close>

record rating =
  cr_date :: date
  cr_url :: string
  cr_agency :: string

definition credit_step ::
  "stamp option \<Rightarrow> rating list \<times> string set \<Rightarrow> link \<Rightarrow> rating list \<times> string set"
where
  "credit_step credit_cutoff_date st l =
     (case st of (ratings, seen) \<Rightarrow>
        let txt = strip (link_text l); href = or_empty (link_href l) in
        if (str_in ''rating update'' (lower txt) \<or> str_in ''rating'' (lower txt)) \<and>
           str_in ''from'' (lower txt) \<and> href \<noteq> [] \<and> href \<notin> seen
        then (case re_search match_day_month_year txt of None \<Rightarrow> st
              | Some (day, ms, yr) \<Rightarrow>
                  (case month_of ms of None \<Rightarrow> st
                   | Some mo \<Rightarrow>
                       (case datetime (int_of yr) mo (int_of day) of None \<Rightarrow> st
                        | Some rd \<Rightarrow>
                            if before_cutoff credit_cutoff_date rd then st
                            else (let ag = (case re_search match_from (lower txt) of
                                              Some g \<Rightarrow> g | None \<Rightarrow> ''unknown'')
                                  in (ratings @ [\<lparr>cr_date = rd, cr_url = href, cr_agency = ag\<rparr>],
                                      insert href seen)))))
        else st)"

definition credit_scan :: "stamp option \<Rightarrow> link list \<Rightarrow> rating list" where
  "credit_scan credit_cutoff_date all_links =
     fst (foldl (credit_step credit_cutoff_date) ([], {}) all_links)"

definition credit_ranked :: "stamp \<Rightarrow> nat \<Rightarrow> link list \<Rightarrow> py_error + rating list" where
  "credit_ranked now num_credit all_links =
     (case cutoff_date now num_credit of
        Inl e \<Rightarrow> Inl e
      | Inr c \<Rightarrow> Inr (sort_desc cr_date (credit_scan c all_links)))"

subsection \<open>Transcripts and presentations\<close>

record bucket =
  b_date :: date
  b_display :: string
  b_transcript :: "string option"
  b_ppt :: "string option"

text \<open>
  \<^verbatim>\<open>concalls_data\<close> is a dictionary from the key \<^verbatim>\<open>"%Y-%m"\<close> to a bucket: an association
  list in insertion order, a key occurring once.
\<close>

type_synonym concalls = "(string \<times> bucket) list"

fun first_context_date :: "string option list \<Rightarrow> (string \<times> string) option" where
  \<comment> \<open>the loop over the three ancestor levels, leaving at the first match\<close>
  "first_context_date [] = None"
| "first_context_date (None # rest) = first_context_date rest"
| "first_context_date (Some el_text # rest) =
     (case re_search match_month_year el_text of
        Some dm \<Rightarrow> Some dm
      | None \<Rightarrow> first_context_date rest)"

definition date_found :: "link \<Rightarrow> (string \<times> string) option" where
  "date_found l = first_context_date (take 3 (ancestor_texts l))"

definition concall_step :: "concalls \<Rightarrow> link \<Rightarrow> concalls" where
  "concall_step concalls_data l =
     (let txt = lower (strip (link_text l)); href = or_empty (link_href l);
          is_t = (txt = ''transcript''); is_p = (txt = ''ppt'') in
      if (is_t \<or> is_p) \<and> href \<noteq> []
      then (case date_found l of None \<Rightarrow> concalls_data
            | Some (ms, yr) \<Rightarrow>
                (case month_of ms of None \<Rightarrow> concalls_data
                 | Some mo \<Rightarrow>
                     (case datetime (int_of yr) mo 1 of None \<Rightarrow> concalls_data
                      | Some cd \<Rightarrow>
                          let ds = strftime_Ym cd;
                              data1 = (if map_of concalls_data ds = None
                                       then concalls_data @
                                              [(ds, \<lparr>b_date = cd, b_display = ms @ '' '' @ yr,
                                                     b_transcript = None, b_ppt = None\<rparr>)]
                                       else concalls_data)
                          in if is_t
                             then AList.map_entry ds (\<lambda>b. b\<lparr>b_transcript := Some href\<rparr>) data1
                             else AList.map_entry ds (\<lambda>b. b\<lparr>b_ppt := Some href\<rparr>) data1)))
      else concalls_data)"

definition concall_scan :: "link list \<Rightarrow> concalls" where
  "concall_scan all_links = foldl concall_step [] all_links"




subsection \<open>Quarterly reports\<close>





subsection \<open>The pipeline of the specification\<close>

text \<open>
  The specification describes each date-windowed category as four stages: classify every
  link, filter by recency, remove duplicate URLs (first occurrence wins), sort. The script
  has no such functions; its scan loops do the first three at once. The definitions of
  this subsection follow the specification's words (sections 4.1 to 4.3), with the
  acceptance conditions of the loops; the scan loops above are compared with them below.
\<close>

definition classify_annual :: "link \<Rightarrow> annual_report option" where
  "classify_annual l =
     (let txt = strip (link_text l); href = or_empty (link_href l) in
      case re_search match_year txt of None \<Rightarrow> None
      | Some g \<Rightarrow>
          if str_in ''financial year'' (lower txt) \<and> str_in ''from'' (lower txt) \<and> href \<noteq> []
          then Some \<lparr>ar_year = int_of g, ar_url = href\<rparr> else None)"

definition classify_credit :: "link \<Rightarrow> rating option" where
  "classify_credit l =
     (let txt = strip (link_text l); href = or_empty (link_href l) in
      if (str_in ''rating update'' (lower txt) \<or> str_in ''rating'' (lower txt)) \<and>
         str_in ''from'' (lower txt) \<and> href \<noteq> []
      then (case re_search match_day_month_year txt of None \<Rightarrow> None
            | Some (day, ms, yr) \<Rightarrow>
                (case month_of ms of None \<Rightarrow> None
                 | Some mo \<Rightarrow>
                     (case datetime (int_of yr) mo (int_of day) of None \<Rightarrow> None
                      | Some rd \<Rightarrow>
                          Some \<lparr>cr_date = rd, cr_url = href,
                                cr_agency = (case re_search match_from (lower txt) of
                                               Some g \<Rightarrow> g | None \<Rightarrow> ''unknown'')\<rparr>)))
      else None)"

definition recency_filter :: "('a \<Rightarrow> date) \<Rightarrow> stamp \<Rightarrow> nat \<Rightarrow> 'a list \<Rightarrow> 'a list" where
  \<comment> \<open>section 4.2: all of the input when the window is 0; otherwise the candidates whose
      primary date is not before \<open>now - window_years * 365\<close> days\<close>
  "recency_filter primary now window_years cands =
     (if window_years = 0 then cands
      else filter (\<lambda>c. (fst now - window_years * 365, snd now) \<le> midnight (primary c)) cands)"

fun dedup_first :: "('a \<Rightarrow> string) \<Rightarrow> string set \<Rightarrow> 'a list \<Rightarrow> 'a list" where
  \<comment> \<open>section 4.3: a candidate whose URL has been seen is rejected\<close>
  "dedup_first url seen [] = []"
| "dedup_first url seen (c # cs) =
     (if url c \<in> seen then dedup_first url seen cs
      else c # dedup_first url (insert (url c) seen) cs)"

text \<open>
  For concalls the specification's classifier and its bucket (section 3, ConcallBucket)
  are the two halves of the body of the scan loop: \<open>classify_concall\<close> is the part that
  decides whether the link counts and recovers its date (\<open>True\<close> for a transcript, \<open>False\<close>
  for a presentation, with the URL, the date and the display text), \<open>store_sighting\<close> the
  part that writes the URL into the month's bucket.
\<close>

definition classify_concall :: "link \<Rightarrow> (bool \<times> string \<times> date \<times> string) option" where
  "classify_concall l =
     (let txt = lower (strip (link_text l)); href = or_empty (link_href l);
          is_t = (txt = ''transcript''); is_p = (txt = ''ppt'') in
      if (is_t \<or> is_p) \<and> href \<noteq> []
      then (case date_found l of None \<Rightarrow> None
            | Some (ms, yr) \<Rightarrow>
                (case month_of ms of None \<Rightarrow> None
                 | Some mo \<Rightarrow>
                     (case datetime (int_of yr) mo 1 of None \<Rightarrow> None
                      | Some cd \<Rightarrow> Some (is_t, href, cd, ms @ '' '' @ yr))))
      else None)"

definition slot_update :: "bool \<Rightarrow> string \<Rightarrow> bucket \<Rightarrow> bucket" where
  "slot_update is_t href b = (if is_t then b\<lparr>b_transcript := Some href\<rparr> else b\<lparr>b_ppt := Some href\<rparr>)"

definition slot :: "bool \<Rightarrow> bucket \<Rightarrow> string option" where
  "slot is_t b = (if is_t then b_transcript b else b_ppt b)"

definition store_sighting :: "concalls \<Rightarrow> bool \<times> string \<times> date \<times> string \<Rightarrow> concalls" where
  "store_sighting concalls_data s =
     (case s of (is_t, href, cd, display) \<Rightarrow>
        let ds = strftime_Ym cd;
            data1 = (if map_of concalls_data ds = None
                     then concalls_data @
                            [(ds, \<lparr>b_date = cd, b_display = display,
                                   b_transcript = None, b_ppt = None\<rparr>)]
                     else concalls_data)
        in AList.map_entry ds (slot_update is_t href) data1)"

section \<open>Properties\<close>

subsection \<open>The downloader's size check\<close>

lemma download_file_small:
  "n < 1000 \<Longrightarrow> download_file (Completes n) fp w =
     (False, w\<lparr>requests := requests w + 1, files := (files w)(fp := None)\<rparr>)"
  by (simp add: download_file_def)

lemma download_file_large:
  "1000 \<le> n \<Longrightarrow> download_file (Completes n) fp w =
     (True, w\<lparr>requests := requests w + 1, files := (files w)(fp \<mapsto> n)\<rparr>)"
  by (simp add: download_file_def)

lemma download_file_raises:
  "att \<in> {RequestRaises, OpenRaises} \<union> range StreamRaises \<Longrightarrow>
     fst (download_file att fp w) = False"
  by (auto simp: download_file_def)

lemma fetch_not_skipped:
  "\<not> fp_exists_above (skip_threshold cat) fp w \<Longrightarrow>
     fetch cat att fp w =
       (if fst (download_file att fp w) then Downloaded else Failed, snd (download_file att fp w))"
  by (simp add: fetch_def split: prod.splits bool.splits)

lemma fetch_Downloaded_file:
  "fetch cat att fp w = (Downloaded, w') \<Longrightarrow>
     \<exists>n. att = Completes n \<and> 1000 \<le> n \<and> files w' fp = Some n"
  by (cases att) (auto simp: fetch_def download_file_def Let_def split: if_splits)

text \<open>
  Claim C9. In every category, when the fetch is attempted (the destination is not
  already there above the skip threshold): a body of fewer than 1000 bytes, 999 for one,
  leaves no file and the fetch reports failed; a body of exactly 1000 bytes is kept and
  reported downloaded; an attempt in which anything raises is reported failed, the
  exception going no further.
\<close>

theorem fetch_size_check:
  assumes "\<not> fp_exists_above (skip_threshold cat) fp w"
  shows "(n < 1000 \<longrightarrow>
            fst (fetch cat (Completes n) fp w) = Failed \<and>
            files (snd (fetch cat (Completes n) fp w)) fp = None) \<and>
         fst (fetch cat (Completes 999) fp w) = Failed \<and>
         files (snd (fetch cat (Completes 999) fp w)) fp = None \<and>
         fst (fetch cat (Completes 1000) fp w) = Downloaded \<and>
         files (snd (fetch cat (Completes 1000) fp w)) fp = Some 1000 \<and>
         (att \<in> {RequestRaises, OpenRaises} \<union> range StreamRaises \<longrightarrow>
            fst (fetch cat att fp w) = Failed)"
  using assms
  by (auto simp: fetch_not_skipped download_file_small download_file_large download_file_raises)

theorem fetch_size_check_witness:
  "\<not> fp_exists_above (skip_threshold Transcript) ''Transcript_2023-08.pdf''
       \<lparr>files = Map.empty, requests = 0\<rparr> \<and>
   (998::nat) < 1000 \<and>
   fst (fetch Transcript (Completes 998) ''Transcript_2023-08.pdf''
          \<lparr>files = Map.empty, requests = 0\<rparr>) = Failed \<and>
   files (snd (fetch Transcript (Completes 998) ''Transcript_2023-08.pdf''
          \<lparr>files = Map.empty, requests = 0\<rparr>)) ''Transcript_2023-08.pdf'' = None \<and>
   fst (fetch Transcript (Completes 1000) ''Transcript_2023-08.pdf''
          \<lparr>files = Map.empty, requests = 0\<rparr>) = Downloaded \<and>
   StreamRaises 20 \<in> {RequestRaises, OpenRaises} \<union> range StreamRaises \<and>
   fst (fetch Transcript (StreamRaises 20) ''Transcript_2023-08.pdf''
          \<lparr>files = Map.empty, requests = 0\<rparr>) = Failed"
  using fetch_size_check [of Transcript "''Transcript_2023-08.pdf''"
      "\<lparr>files = Map.empty, requests = 0\<rparr>" 998 "StreamRaises 20"]
  by (simp add: fp_exists_above_def)

text \<open>
  Claim C2, as stated, fails: for annual reports, credit ratings and quarterly reports
  it asks that a download of exactly 4999 bytes be deleted and reported failed. The only
  size check after a download is the one inside \<^verbatim>\<open>download_file\<close>, at 1000 bytes; the
  value 5000 is used only by the skip-if-exists test in front of it. A 4999-byte annual
  report is kept and counted as downloaded.
\<close>

theorem annual_4999_counterexample:
  "fetch Annual (Completes 4999) ''Annual_Report_2022.pdf'' \<lparr>files = Map.empty, requests = 0\<rparr>
     = (Downloaded, \<lparr>files = [''Annual_Report_2022.pdf'' \<mapsto> 4999], requests = 1\<rparr>)"
  by (simp add: fetch_def fp_exists_above_def download_file_def)

text \<open>
  Claim C2, amended. For annual reports, credit ratings and quarterly reports an
  attempted download is validated at 1000 bytes like every other: 999 bytes are deleted
  and reported failed; 1000, 4999 and 5000 bytes are each kept and reported downloaded.
\<close>

theorem large_categories_size_check:
  assumes "cat \<in> {Annual, Credit, Quarterly}"
      and "\<not> fp_exists_above (skip_threshold cat) fp w"
  shows "fetch cat (Completes 999) fp w =
           (Failed, w\<lparr>requests := requests w + 1, files := (files w)(fp := None)\<rparr>) \<and>
         fetch cat (Completes 1000) fp w =
           (Downloaded, w\<lparr>requests := requests w + 1, files := (files w)(fp \<mapsto> 1000)\<rparr>) \<and>
         fetch cat (Completes 4999) fp w =
           (Downloaded, w\<lparr>requests := requests w + 1, files := (files w)(fp \<mapsto> 4999)\<rparr>) \<and>
         fetch cat (Completes 5000) fp w =
           (Downloaded, w\<lparr>requests := requests w + 1, files := (files w)(fp \<mapsto> 5000)\<rparr>)"
  using assms(2)
  by (simp add: fetch_not_skipped download_file_small download_file_large)

theorem large_categories_size_check_witness:
  "Quarterly \<in> {Annual, Credit, Quarterly} \<and>
   \<not> fp_exists_above (skip_threshold Quarterly) ''Quarterly_Report_2023-06.pdf''
       \<lparr>files = Map.empty, requests = 0\<rparr> \<and>
   fetch Quarterly (Completes 4999) ''Quarterly_Report_2023-06.pdf''
       \<lparr>files = Map.empty, requests = 0\<rparr>
     = (Downloaded, \<lparr>files = [''Quarterly_Report_2023-06.pdf'' \<mapsto> 4999], requests = 1\<rparr>) \<and>
   fetch Quarterly (Completes 999) ''Quarterly_Report_2023-06.pdf''
       \<lparr>files = Map.empty, requests = 0\<rparr>
     = (Failed, \<lparr>files = Map.empty, requests = 1\<rparr>)"
  using large_categories_size_check [of Quarterly "''Quarterly_Report_2023-06.pdf''"
      "\<lparr>files = Map.empty, requests = 0\<rparr>"]
  by (simp add: fp_exists_above_def)

text \<open>
  Claim C1, as stated, fails: a download succeeds from 1000 bytes on, but the second
  fetch skips only above the category's skip threshold. An annual report of 3000 bytes
  is downloaded, and fetched again over the network by the second call.
\<close>

theorem refetch_counterexample:
  "fetch Annual (Completes 3000) ''Annual_Report_2022.pdf'' \<lparr>files = Map.empty, requests = 0\<rparr>
     = (Downloaded, \<lparr>files = [''Annual_Report_2022.pdf'' \<mapsto> 3000], requests = 1\<rparr>) \<and>
   fetch Annual (Completes 3000) ''Annual_Report_2022.pdf''
       \<lparr>files = [''Annual_Report_2022.pdf'' \<mapsto> 3000], requests = 1\<rparr>
     = (Downloaded, \<lparr>files = [''Annual_Report_2022.pdf'' \<mapsto> 3000], requests = 2\<rparr>)"
  by (simp add: fetch_def fp_exists_above_def download_file_def)

text \<open>
  Claim C1, amended. If a first fetch for a destination path reports downloaded and
  the file it left is larger than the category's skip threshold (1000 bytes for
  transcripts and presentations, 5000 for annual reports, credit ratings and quarterly
  reports), then a second fetch for the same path, whatever the network would answer,
  reports skipped-existing and leaves the world, its request count included, unchanged.
\<close>

theorem refetch_skips:
  assumes "fetch cat att fp w = (Downloaded, w')"
      and "files w' fp = Some n"
      and "skip_threshold cat < n"
  shows "fetch cat att' fp w' = (Skipped_existing, w') \<and>
         requests (snd (fetch cat att' fp w')) = requests w'"
  using assms by (simp add: fetch_def fp_exists_above_def)

theorem refetch_skips_witness:
  "fetch Annual (Completes 6000) ''Annual_Report_2022.pdf'' \<lparr>files = Map.empty, requests = 0\<rparr>
     = (Downloaded, \<lparr>files = [''Annual_Report_2022.pdf'' \<mapsto> 6000], requests = 1\<rparr>) \<and>
   files \<lparr>files = [''Annual_Report_2022.pdf'' \<mapsto> 6000], requests = 1\<rparr>
     ''Annual_Report_2022.pdf'' = Some 6000 \<and>
   skip_threshold Annual < 6000 \<and>
   fetch Annual RequestRaises ''Annual_Report_2022.pdf''
       \<lparr>files = [''Annual_Report_2022.pdf'' \<mapsto> 6000], requests = 1\<rparr>
     = (Skipped_existing, \<lparr>files = [''Annual_Report_2022.pdf'' \<mapsto> 6000], requests = 1\<rparr>)"
proof -
  have a: "fetch Annual (Completes 6000) ''Annual_Report_2022.pdf''
             \<lparr>files = Map.empty, requests = 0\<rparr>
     = (Downloaded, \<lparr>files = [''Annual_Report_2022.pdf'' \<mapsto> 6000], requests = 1\<rparr>)"
    by (simp add: fetch_def fp_exists_above_def download_file_def)
  have b: "files \<lparr>files = [''Annual_Report_2022.pdf'' \<mapsto> 6000], requests = 1\<rparr>
             ''Annual_Report_2022.pdf'' = Some 6000"
    by simp
  have c: "skip_threshold Annual < 6000" by simp
  from refetch_skips [OF a b c, of RequestRaises] a b c show ?thesis by simp
qed

subsection \<open>Sorting and the count limit\<close>












lemmas char_class_defs = is_space_def is_digit_def is_alpha_def is_word_def uppers_def lowers_def
  lower_char_def upper_char_def lower_def upper_def

lemmas re_defs = match_month_year_def match_day_with_def match_day_month_year_def match_from_def
  take_class_def spaces1_def strip_def

lemmas date_defs = month_of_def months_def datetime_def days_in_month_def is_leap_def int_of_def
  digit_val_def pad2_def pad4_def year_str_def digit_char_def or_empty_def

subsection \<open>Strings and patterns\<close>

lemma str_in_sublist: "str_in sub s = sublist sub s"
  by (induction s) (simp_all add: sublist_Cons_right)

lemma re_search_found:
  "(\<exists>r. re_search m s = Some r) = (\<exists>pre post. s = pre @ post \<and> m post \<noteq> None)"
proof (induction s)
  case Nil
  then show ?case by auto
next
  case (Cons c cs)
  show ?case
  proof (cases "m (c # cs)")
    case None
    have "(\<exists>pre post. c # cs = pre @ post \<and> m post \<noteq> None) =
          (\<exists>pre post. cs = pre @ post \<and> m post \<noteq> None)"
    proof
      assume "\<exists>pre post. c # cs = pre @ post \<and> m post \<noteq> None"
      then obtain pre post where p: "c # cs = pre @ post" "m post \<noteq> None" by blast
      with None have "pre \<noteq> []" by auto
      with p obtain pre' where "pre = c # pre'" "cs = pre' @ post"
        by (cases pre) auto
      with p show "\<exists>pre post. cs = pre @ post \<and> m post \<noteq> None" by blast
    next
      assume "\<exists>pre post. cs = pre @ post \<and> m post \<noteq> None"
      then obtain pre post where "cs = pre @ post" "m post \<noteq> None" by blast
      then have "c # cs = (c # pre) @ post" by simp
      with \<open>m post \<noteq> None\<close> show "\<exists>pre post. c # cs = pre @ post \<and> m post \<noteq> None" by blast
    qed
    with None Cons show ?thesis by simp
  next
    case (Some r)
    then have "c # cs = [] @ (c # cs) \<and> m (c # cs) \<noteq> None" by simp
    then have "\<exists>pre post. c # cs = pre @ post \<and> m post \<noteq> None" by blast
    with Some show ?thesis by simp
  qed
qed

lemma re_search_Some:
  "re_search m s = Some r \<Longrightarrow>
     \<exists>pre post. s = pre @ post \<and> m post = Some r \<and> (\<forall>k < length pre. m (drop k s) = None)"
proof (induction s)
  case Nil
  then show ?case by auto
next
  case (Cons c cs)
  show ?case
  proof (cases "m (c # cs)")
    case None
    with Cons.prems have "re_search m cs = Some r" by simp
    from Cons.IH [OF this] obtain pre post where
      p: "cs = pre @ post" "m post = Some r" "\<forall>k < length pre. m (drop k cs) = None" by blast
    have "\<forall>k < length (c # pre). m (drop k (c # cs)) = None"
    proof (intro allI impI)
      fix k assume "k < length (c # pre)"
      then show "m (drop k (c # cs)) = None"
        using None p(3) by (cases k) auto
    qed
    moreover have "c # cs = (c # pre) @ post" using p(1) by simp
    ultimately show ?thesis using p(2) by blast
  next
    case (Some r')
    with Cons.prems have "r' = r" by simp
    with Some have "c # cs = [] @ (c # cs) \<and> m (c # cs) = Some r \<and>
       (\<forall>k < length ([]::string). m (drop k (c # cs)) = None)" by simp
    then show ?thesis by blast
  qed
qed

lemma match_year_Some:
  "match_year t = Some g \<longleftrightarrow>
     (\<exists>c d rest. t = CHR ''2'' # CHR ''0'' # c # d # rest \<and> is_digit c \<and> is_digit d \<and>
                  g = [CHR ''2'', CHR ''0'', c, d])"
  by (cases t rule: match_year.cases) auto

lemma not_space_digit: "is_digit c \<Longrightarrow> \<not> is_space c"
  by (auto simp: is_digit_def is_space_def)


lemma is_space_lower_char: "is_space (lower_char c) = is_space c"
  by (simp add: lower_char_def uppers_def lowers_def is_space_def)

lemma dropWhile_keep:
  "\<not> P x \<Longrightarrow> dropWhile P (a @ x # b) = dropWhile P a @ x # b"
  by (induction a) auto

lemma strip_around:
  assumes "p \<noteq> []" "\<not> is_space (hd p)" "\<not> is_space (last p)"
  shows "strip (a @ p @ b) = dropWhile is_space a @ p @ rev (dropWhile is_space (rev b))"
proof -
  from assms obtain x p' where p: "p = x # p'" by (cases p) auto
  with assms have x: "\<not> is_space x" by simp
  from assms obtain y q where q: "rev p = y # q" by (cases "rev p") auto
  then have "last p = y" by (metis last_rev list.sel(1) rev_rev_ident hd_rev)
  with assms have y: "\<not> is_space y" by simp
  have 1: "dropWhile is_space (a @ p @ b) = dropWhile is_space a @ p @ b"
    using dropWhile_keep [of is_space x a "p' @ b"] x p by simp
  have "rev (dropWhile is_space a @ p @ b) = rev b @ y # (q @ rev (dropWhile is_space a))"
    using q by simp
  then have "dropWhile is_space (rev (dropWhile is_space a @ p @ b)) =
             dropWhile is_space (rev b) @ y # (q @ rev (dropWhile is_space a))"
    using dropWhile_keep [of is_space y "rev b" "q @ rev (dropWhile is_space a)"] y by simp
  then have "rev (dropWhile is_space (rev (dropWhile is_space a @ p @ b))) =
             dropWhile is_space a @ rev (y # q) @ rev (dropWhile is_space (rev b))"
    by simp
  with q [symmetric] 1 show ?thesis by (simp add: strip_def)
qed

lemma sublist_trans: "sublist xs ys \<Longrightarrow> sublist ys zs \<Longrightarrow> sublist xs zs"
  unfolding sublist_def by (metis append.assoc)

lemma sublist_strip_self: "sublist (strip s) s"
proof -
  have "sublist (dropWhile is_space (rev (dropWhile is_space s))) (rev (dropWhile is_space s))"
    by (rule suffix_imp_sublist) (rule suffix_dropWhile)
  then have "sublist (strip s) (dropWhile is_space s)"
    unfolding strip_def by (simp add: sublist_rev_left)
  moreover have "sublist (dropWhile is_space s) s"
    by (rule suffix_imp_sublist) (rule suffix_dropWhile)
  ultimately show ?thesis by (rule sublist_trans)
qed

lemma sublist_strip:
  assumes "p \<noteq> []" "\<not> is_space (hd p)" "\<not> is_space (last p)"
  shows "sublist p (strip s) = sublist p s"
proof
  assume "sublist p (strip s)"
  then show "sublist p s" using sublist_strip_self by (rule sublist_trans)
next
  assume "sublist p s"
  then obtain a b where "s = a @ p @ b" by (auto simp: sublist_def)
  then show "sublist p (strip s)" using strip_around [OF assms, of a b] by simp
qed

lemma strip_lower: "strip (lower s) = lower (strip s)"
  by (simp add: strip_def lower_def dropWhile_map rev_map comp_def is_space_lower_char)

subsection \<open>The annual-report scan\<close>

lemma match_year_space: "is_space c \<Longrightarrow> match_year (c # s) = None"
proof (cases "match_year (c # s)")
  case None
  then show ?thesis .
next
  case (Some g)
  assume "is_space c"
  moreover from Some have "c = CHR ''2''" by (auto simp: match_year_Some)
  ultimately show ?thesis by (simp add: is_space_def)
qed

lemma re_search_year_dropWhile:
  "re_search match_year (dropWhile is_space s) = re_search match_year s"
  by (induction s) (simp_all add: match_year_space)

lemma match_year_snoc_space: "is_space c \<Longrightarrow> match_year (s @ [c]) = match_year s"
  by (cases s rule: match_year.cases) (auto dest: not_space_digit)

lemma re_search_year_snoc_space:
  "is_space c \<Longrightarrow> re_search match_year (s @ [c]) = re_search match_year s"
proof (induction s)
  case Nil
  then show ?case by (simp add: match_year_space)
next
  case (Cons x s)
  from Cons.prems have "match_year ((x # s) @ [c]) = match_year (x # s)"
    by (rule match_year_snoc_space)
  with Cons.IH [OF Cons.prems] show ?case by (simp split: option.split)
qed

lemma re_search_year_rev_dropWhile:
  "re_search match_year (rev (dropWhile is_space u)) = re_search match_year (rev u)"
  by (induction u) (simp_all add: re_search_year_snoc_space)

lemma re_search_year_strip: "re_search match_year (strip s) = re_search match_year s"
  by (simp add: strip_def re_search_year_rev_dropWhile re_search_year_dropWhile)

lemma sublist_lower_strip:
  assumes "p \<noteq> []" "\<not> is_space (hd p)" "\<not> is_space (last p)"
  shows "sublist p (lower (strip s)) = sublist p (lower s)"
  using sublist_strip [OF assms, of "lower s"] by (simp add: strip_lower)

lemma financial_year_strip:
  "str_in ''financial year'' (lower (strip s)) = sublist ''financial year'' (lower s)"
  by (simp add: str_in_sublist sublist_lower_strip is_space_def)

lemma from_strip: "str_in ''from'' (lower (strip s)) = sublist ''from'' (lower s)"
  by (simp add: str_in_sublist sublist_lower_strip is_space_def)



lemma annual_step_eq:
  "annual_step cutoff (acc, seen) l =
     (case re_search match_year (link_text l) of
        None \<Rightarrow> (acc, seen)
      | Some g \<Rightarrow>
          if sublist ''financial year'' (lower (link_text l)) \<and>
             sublist ''from'' (lower (link_text l)) \<and>
             or_empty (link_href l) \<noteq> [] \<and> or_empty (link_href l) \<notin> seen \<and>
             \<not> before_cutoff cutoff (int_of g, 12, 31)
          then (acc @ [\<lparr>ar_year = int_of g, ar_url = or_empty (link_href l)\<rparr>],
                insert (or_empty (link_href l)) seen)
          else (acc, seen))"
  by (simp add: annual_step_def Let_def financial_year_strip from_strip re_search_year_strip
           split: option.splits)

lemma year_found:
  "(\<exists>g. re_search match_year s = Some g) =
   (\<exists>pre c d post. s = pre @ CHR ''2'' # CHR ''0'' # c # d # post \<and> is_digit c \<and> is_digit d)"
proof -
  have "(\<exists>g. re_search match_year s = Some g) =
        (\<exists>pre post. s = pre @ post \<and> (\<exists>g. match_year post = Some g))"
    by (simp add: re_search_found)
  also have "\<dots> = (\<exists>pre c d post. s = pre @ CHR ''2'' # CHR ''0'' # c # d # post \<and>
                      is_digit c \<and> is_digit d)"
    unfolding match_year_Some by blast
  finally show ?thesis .
qed

lemma year_leftmost:
  assumes "re_search match_year s = Some g"
  shows "\<exists>pre c d post. s = pre @ CHR ''2'' # CHR ''0'' # c # d # post \<and>
           is_digit c \<and> is_digit d \<and> g = [CHR ''2'', CHR ''0'', c, d] \<and>
           (\<forall>k < length pre. match_year (drop k s) = None)"
proof -
  from re_search_Some [OF assms] obtain pre post where
    p: "s = pre @ post" "match_year post = Some g" "\<forall>k < length pre. match_year (drop k s) = None"
    by blast
  from p(2) obtain c d rest where
    "post = CHR ''2'' # CHR ''0'' # c # d # rest" "is_digit c" "is_digit d"
    "g = [CHR ''2'', CHR ''0'', c, d]"
    by (auto simp: match_year_Some)
  with p(1,3) show ?thesis by blast
qed

lemma annual_example_text:
  "re_search match_year ''Annual Report - Financial Year 2022 from BSE'' = Some ''2022'' \<and>
   sublist ''financial year'' (lower ''Annual Report - Financial Year 2022 from BSE'') \<and>
   sublist ''from'' (lower ''Annual Report - Financial Year 2022 from BSE'')"
  by (simp add: str_in_sublist [symmetric] char_class_defs)

lemma int_of_2022: "int_of ''2022'' = 2022"
  by (simp add: int_of_def digit_val_def)

text \<open>
  Claim C5, amended. For every link that has a non-empty \<^verbatim>\<open>href\<close> not accepted earlier
  in the scan: the annual-report scan emits a candidate (no cutoff being set) if and only
  if the link text contains \<^verbatim>\<open>20\<close> followed by two digits, contains \<^verbatim>\<open>financial year\<close>
  case-insensitively and contains \<^verbatim>\<open>from\<close> case-insensitively; the candidate's year is the
  number read from the leftmost such four digits; with a cutoff the candidate is dropped
  exactly when December 31 of that year, at midnight, is before the cutoff. The text
  \<^verbatim>\<open>Annual Report - Financial Year 2022 from BSE\<close> yields the year 2022.
\<close>

theorem annual_classifier:
  assumes "link_href l = Some h" and "h \<noteq> []" and "h \<notin> seen"
  shows
    "((\<exists>y. annual_step None (acc, seen) l = (acc @ [\<lparr>ar_year = y, ar_url = h\<rparr>], insert h seen)) \<longleftrightarrow>
        (\<exists>pre c d post. link_text l = pre @ CHR ''2'' # CHR ''0'' # c # d # post \<and>
                         is_digit c \<and> is_digit d) \<and>
        sublist ''financial year'' (lower (link_text l)) \<and>
        sublist ''from'' (lower (link_text l))) \<and>
     (\<not> ((\<exists>pre c d post. link_text l = pre @ CHR ''2'' # CHR ''0'' # c # d # post \<and>
                           is_digit c \<and> is_digit d) \<and>
          sublist ''financial year'' (lower (link_text l)) \<and>
          sublist ''from'' (lower (link_text l))) \<longrightarrow>
        annual_step cutoff (acc, seen) l = (acc, seen)) \<and>
     ((\<exists>pre c d post. link_text l = pre @ CHR ''2'' # CHR ''0'' # c # d # post \<and>
                       is_digit c \<and> is_digit d) \<and>
      sublist ''financial year'' (lower (link_text l)) \<and>
      sublist ''from'' (lower (link_text l)) \<longrightarrow>
        (\<exists>pre c d post.
            link_text l = pre @ CHR ''2'' # CHR ''0'' # c # d # post \<and> is_digit c \<and> is_digit d \<and>
            (\<forall>k < length pre. match_year (drop k (link_text l)) = None) \<and>
            annual_step cutoff (acc, seen) l =
              (if before_cutoff cutoff (int_of [CHR ''2'', CHR ''0'', c, d], 12, 31)
               then (acc, seen)
               else (acc @ [\<lparr>ar_year = int_of [CHR ''2'', CHR ''0'', c, d], ar_url = h\<rparr>],
                     insert h seen)))) \<and>
     before_cutoff None (y, 12, 31) = False \<and>
     before_cutoff (Some co) (y, 12, 31) = ((toordinal (y, 12, 31), 0) < co) \<and>
     (link_text l = ''Annual Report - Financial Year 2022 from BSE'' \<longrightarrow>
        annual_step None (acc, seen) l = (acc @ [\<lparr>ar_year = 2022, ar_url = h\<rparr>], insert h seen))"
proof -
  let ?t = "link_text l"
  let ?C = "(\<exists>pre c d post. ?t = pre @ CHR ''2'' # CHR ''0'' # c # d # post \<and>
                is_digit c \<and> is_digit d) \<and>
            sublist ''financial year'' (lower ?t) \<and> sublist ''from'' (lower ?t)"
  have h: "or_empty (link_href l) = h" using assms(1) by (simp add: or_empty_def)
  have rej: "annual_step cutoff (acc, seen) l = (acc, seen)" if "\<not> ?C" for cutoff
  proof (cases "re_search match_year ?t")
    case None
    then show ?thesis by (simp add: annual_step_eq)
  next
    case (Some g)
    then have "\<exists>g. re_search match_year ?t = Some g" by blast
    with that have "\<not> (sublist ''financial year'' (lower ?t) \<and> sublist ''from'' (lower ?t))"
      unfolding year_found by blast
    with Some show ?thesis by (auto simp: annual_step_eq)
  qed
  have acc: "\<exists>pre c d post.
            ?t = pre @ CHR ''2'' # CHR ''0'' # c # d # post \<and> is_digit c \<and> is_digit d \<and>
            (\<forall>k < length pre. match_year (drop k ?t) = None) \<and>
            annual_step cutoff (acc, seen) l =
              (if before_cutoff cutoff (int_of [CHR ''2'', CHR ''0'', c, d], 12, 31)
               then (acc, seen)
               else (acc @ [\<lparr>ar_year = int_of [CHR ''2'', CHR ''0'', c, d], ar_url = h\<rparr>],
                     insert h seen))" if c: "?C" for cutoff
  proof -
    from c have "\<exists>g. re_search match_year ?t = Some g" unfolding year_found by blast
    then obtain g where g: "re_search match_year ?t = Some g" by blast
    from year_leftmost [OF g] obtain pre c d post where
      p: "?t = pre @ CHR ''2'' # CHR ''0'' # c # d # post" "is_digit c" "is_digit d"
         "g = [CHR ''2'', CHR ''0'', c, d]" "\<forall>k < length pre. match_year (drop k ?t) = None"
      by blast
    have "annual_step cutoff (acc, seen) l =
              (if before_cutoff cutoff (int_of g, 12, 31)
               then (acc, seen)
               else (acc @ [\<lparr>ar_year = int_of g, ar_url = h\<rparr>], insert h seen))"
      using c g h assms(2,3) by (simp add: annual_step_eq)
    with p show ?thesis by blast
  qed
  have iff: "(\<exists>y. annual_step None (acc, seen) l =
                 (acc @ [\<lparr>ar_year = y, ar_url = h\<rparr>], insert h seen)) \<longleftrightarrow> ?C"
  proof
    assume "\<exists>y. annual_step None (acc, seen) l = (acc @ [\<lparr>ar_year = y, ar_url = h\<rparr>], insert h seen)"
    then have "annual_step None (acc, seen) l \<noteq> (acc, seen)" by auto
    with rej [of None] show ?C by blast
  next
    assume ?C
    from acc [OF this, of None] show
      "\<exists>y. annual_step None (acc, seen) l = (acc @ [\<lparr>ar_year = y, ar_url = h\<rparr>], insert h seen)"
      by (auto simp: before_cutoff_def)
  qed
  have ex: "annual_step None (acc, seen) l =
              (acc @ [\<lparr>ar_year = 2022, ar_url = h\<rparr>], insert h seen)"
    if "?t = ''Annual Report - Financial Year 2022 from BSE''"
    using annual_example_text h assms(2,3) int_of_2022
    by (simp add: annual_step_eq that before_cutoff_def)
  have bc: "before_cutoff None (y, 12, 31) = False \<and>
     before_cutoff (Some co) (y, 12, 31) = ((toordinal (y, 12, 31), 0) < co)"
    by (simp add: before_cutoff_def midnight_def)
  from iff rej acc ex bc show ?thesis by blast
qed

text \<open>
  Claim C5, as stated for every link, fails: the condition of the scan also asks for a
  non-empty \<^verbatim>\<open>href\<close> (and one not seen before). An anchor without \<^verbatim>\<open>href\<close> whose text
  meets all three text conditions yields no candidate.
\<close>

theorem annual_no_href_counterexample:
  "''Annual Report - Financial Year 2022 from BSE'' =
     ''Annual Report - Financial Year '' @ CHR ''2'' # CHR ''0'' # CHR ''2'' # CHR ''2'' # '' from BSE'' \<and>
   is_digit CHR ''2'' \<and>
   sublist ''financial year'' (lower ''Annual Report - Financial Year 2022 from BSE'') \<and>
   sublist ''from'' (lower ''Annual Report - Financial Year 2022 from BSE'') \<and>
   annual_step None ([], {})
     \<lparr>link_text = ''Annual Report - Financial Year 2022 from BSE'', link_href = None,
      aria_label = None, ancestor_texts = [], column_header = None\<rparr> = ([], {})"
  using annual_example_text by (simp add: annual_step_eq or_empty_def is_digit_def)

theorem annual_classifier_witness:
  "link_href \<lparr>link_text = ''Annual Report - Financial Year 2022 from BSE'',
              link_href = Some ''https://www.bseindia.com/AR2022.pdf'',
              aria_label = None, ancestor_texts = [], column_header = None\<rparr>
     = Some ''https://www.bseindia.com/AR2022.pdf'' \<and>
   ''https://www.bseindia.com/AR2022.pdf'' \<noteq> [] \<and>
   ''https://www.bseindia.com/AR2022.pdf'' \<notin> {} \<and>
   annual_step None ([], {})
     \<lparr>link_text = ''Annual Report - Financial Year 2022 from BSE'',
      link_href = Some ''https://www.bseindia.com/AR2022.pdf'',
      aria_label = None, ancestor_texts = [], column_header = None\<rparr>
     = ([\<lparr>ar_year = 2022, ar_url = ''https://www.bseindia.com/AR2022.pdf''\<rparr>],
        {''https://www.bseindia.com/AR2022.pdf''})"
proof -
  let ?l = "\<lparr>link_text = ''Annual Report - Financial Year 2022 from BSE'',
              link_href = Some ''https://www.bseindia.com/AR2022.pdf'',
              aria_label = None, ancestor_texts = [], column_header = None\<rparr>"
  have a: "link_href ?l = Some ''https://www.bseindia.com/AR2022.pdf''" by simp
  have b: "''https://www.bseindia.com/AR2022.pdf'' \<noteq> []" by simp
  have c: "''https://www.bseindia.com/AR2022.pdf'' \<notin> {}" by simp
  have t: "link_text ?l = ''Annual Report - Financial Year 2022 from BSE''" by simp
  have "annual_step None ([], {}) ?l
          = ([] @ [\<lparr>ar_year = 2022, ar_url = ''https://www.bseindia.com/AR2022.pdf''\<rparr>],
             insert ''https://www.bseindia.com/AR2022.pdf'' {})"
    by (rule annual_classifier [OF a b c, THEN conjunct2, THEN conjunct2, THEN conjunct2,
          THEN conjunct2, THEN conjunct2, THEN mp, OF t])
  with a b c show ?thesis by simp
qed

subsection \<open>The scan loops against the pipeline of the specification\<close>

lemma scan_pipeline:
  assumes step: "\<And>acc seen l. step (acc, seen) l =
     (case classify l of None \<Rightarrow> (acc, seen)
      | Some a \<Rightarrow> if url a \<notin> seen \<and> keep a then (acc @ [a], insert (url a) seen) else (acc, seen))"
  shows "foldl step (acc, seen) links =
     (acc @ dedup_first url seen (filter keep (List.map_filter classify links)),
      seen \<union> url ` set (dedup_first url seen (filter keep (List.map_filter classify links))))"
proof (induction links arbitrary: acc seen)
  case Nil
  then show ?case by (simp add: List.map_filter_simps)
next
  case (Cons l links)
  show ?case
  proof (cases "classify l")
    case None
    then show ?thesis using Cons [of acc seen] by (simp add: step List.map_filter_simps)
  next
    case (Some a)
    show ?thesis
    proof (cases "url a \<notin> seen \<and> keep a")
      case True
      then show ?thesis
        using Some Cons [of "acc @ [a]" "insert (url a) seen"]
        by (simp add: step List.map_filter_simps)
    next
      case False
      then show ?thesis
        using Some Cons [of acc seen] by (auto simp: step List.map_filter_simps)
    qed
  qed
qed

lemma annual_step_classify:
  "annual_step cutoff (acc, seen) l =
     (case classify_annual l of None \<Rightarrow> (acc, seen)
      | Some a \<Rightarrow>
          if ar_url a \<notin> seen \<and> \<not> before_cutoff cutoff (ar_year a, 12, 31)
          then (acc @ [a], insert (ar_url a) seen) else (acc, seen))"
  by (auto simp: annual_step_def classify_annual_def Let_def split: option.splits)

lemma credit_step_classify:
  "credit_step cutoff (acc, seen) l =
     (case classify_credit l of None \<Rightarrow> (acc, seen)
      | Some a \<Rightarrow>
          if cr_url a \<notin> seen \<and> \<not> before_cutoff cutoff (cr_date a)
          then (acc @ [a], insert (cr_url a) seen) else (acc, seen))"
  by (auto simp: credit_step_def classify_credit_def Let_def split: option.splits)

lemma annual_scan_pipeline:
  "annual_scan cutoff links =
     dedup_first ar_url {}
       (filter (\<lambda>a. \<not> before_cutoff cutoff (ar_year a, 12, 31)) (List.map_filter classify_annual links))"
  unfolding annual_scan_def
  by (subst scan_pipeline [where classify = classify_annual and url = ar_url
        and keep = "\<lambda>a. \<not> before_cutoff cutoff (ar_year a, 12, 31)"])
     (simp_all add: annual_step_classify)

lemma credit_scan_pipeline:
  "credit_scan cutoff links =
     dedup_first cr_url {}
       (filter (\<lambda>a. \<not> before_cutoff cutoff (cr_date a)) (List.map_filter classify_credit links))"
  unfolding credit_scan_def
  by (subst scan_pipeline [where classify = classify_credit and url = cr_url
        and keep = "\<lambda>a. \<not> before_cutoff cutoff (cr_date a)"])
     (simp_all add: credit_step_classify)

lemma filter_cutoff:
  "cutoff_date now n = Inr c \<Longrightarrow>
     filter (\<lambda>a. \<not> before_cutoff c (primary a)) cands = recency_filter primary now n cands"
  by (auto simp: cutoff_date_def recency_filter_def before_cutoff_def not_less
           split: if_splits intro: filter_cong)

lemma annual_scan_refines:
  "cutoff_date now n = Inr c \<Longrightarrow>
     annual_scan c links =
       dedup_first ar_url {}
         (recency_filter (\<lambda>a. (ar_year a, 12, 31)) now n (List.map_filter classify_annual links))"
  by (simp add: annual_scan_pipeline filter_cutoff [of now n c "\<lambda>a. (ar_year a, 12, 31)"])

lemma credit_scan_refines:
  "cutoff_date now n = Inr c \<Longrightarrow>
     credit_scan c links =
       dedup_first cr_url {}
         (recency_filter cr_date now n (List.map_filter classify_credit links))"
  by (simp add: credit_scan_pipeline filter_cutoff [of now n c cr_date])

lemma cutoff_date_zero: "cutoff_date now 0 = Inr None"
  by (simp add: cutoff_date_def)

text \<open>
  Claim C4. With a history parameter of 0 the cutoff is \<open>None\<close>, and the recency filter
  is the identity on every candidate list; for annual reports and for credit ratings
  the scan then yields every classified candidate, duplicates of a URL apart, and the
  ranked list is their sorted list: no candidate is removed by a date.
\<close>

theorem window_zero_keeps_all:
  "cutoff_date now 0 = Inr None \<and>
   recency_filter primary now 0 cands = cands \<and>
   annual_scan None links = dedup_first ar_url {} (List.map_filter classify_annual links) \<and>
   credit_scan None links = dedup_first cr_url {} (List.map_filter classify_credit links) \<and>
   annual_ranked now 0 links =
     Inr (sort_desc ar_year (dedup_first ar_url {}
            (recency_filter (\<lambda>a. (ar_year a, 12, 31)) now 0
               (List.map_filter classify_annual links)))) \<and>
   credit_ranked now 0 links =
     Inr (sort_desc cr_date (dedup_first cr_url {}
            (recency_filter cr_date now 0 (List.map_filter classify_credit links))))"
proof -
  have f: "recency_filter p now 0 xs = xs" for p :: "'b \<Rightarrow> date" and xs
    by (simp add: recency_filter_def)
  have a: "annual_scan None links = dedup_first ar_url {} (List.map_filter classify_annual links)"
    using annual_scan_refines [OF cutoff_date_zero, where links = links and now = now] by (simp add: f)
  have c: "credit_scan None links = dedup_first cr_url {} (List.map_filter classify_credit links)"
    using credit_scan_refines [OF cutoff_date_zero, where links = links and now = now] by (simp add: f)
  show ?thesis
    by (simp add: cutoff_date_zero f a c annual_ranked_def credit_ranked_def recency_filter_def)
qed

theorem window_zero_keeps_all_witness:
  "annual_ranked (738900, 0) 0
     [\<lparr>link_text = ''Financial Year 2010 from bse'', link_href = Some ''https://x.in/a.pdf'',
       aria_label = None, ancestor_texts = [], column_header = None\<rparr>,
      \<lparr>link_text = ''Financial Year 2023 from bse'', link_href = Some ''https://x.in/b.pdf'',
       aria_label = None, ancestor_texts = [], column_header = None\<rparr>]
     = Inr [\<lparr>ar_year = 2023, ar_url = ''https://x.in/b.pdf''\<rparr>,
            \<lparr>ar_year = 2010, ar_url = ''https://x.in/a.pdf''\<rparr>]"
proof -
  let ?L = "[\<lparr>link_text = ''Financial Year 2010 from bse'', link_href = Some ''https://x.in/a.pdf'',
       aria_label = None, ancestor_texts = [], column_header = None\<rparr>,
      \<lparr>link_text = ''Financial Year 2023 from bse'', link_href = Some ''https://x.in/b.pdf'',
       aria_label = None, ancestor_texts = [], column_header = None\<rparr>]"
  have cl: "List.map_filter classify_annual ?L =
              [\<lparr>ar_year = 2010, ar_url = ''https://x.in/a.pdf''\<rparr>,
               \<lparr>ar_year = 2023, ar_url = ''https://x.in/b.pdf''\<rparr>]"
    by (simp add: List.map_filter_simps classify_annual_def char_class_defs strip_def
          or_empty_def int_of_def digit_val_def)
  from window_zero_keeps_all [of "(738900, 0)" "\<lambda>a. (ar_year a, 12, 31)" "[]" ?L]
  have "annual_ranked (738900, 0) 0 ?L =
     Inr (sort_desc ar_year (dedup_first ar_url {}
            (recency_filter (\<lambda>a. (ar_year a, 12, 31)) (738900, 0) 0
               (List.map_filter classify_annual ?L))))"
    by blast
  then show ?thesis
    unfolding cl by (simp add: recency_filter_def sort_desc_def)
qed

subsection \<open>The ranked lists\<close>

















subsection \<open>Concall buckets\<close>

lemma concall_step_classify:
  "concall_step data l = (case classify_concall l of None \<Rightarrow> data | Some s \<Rightarrow> store_sighting data s)"
  by (auto simp: concall_step_def classify_concall_def store_sighting_def slot_update_def Let_def
           split: option.splits prod.splits intro!: arg_cong2 [where f = "AList.map_entry _"])

lemma map_of_store_sighting:
  "map_of (store_sighting data (t, h, cd, disp)) =
     (map_of data)(strftime_Ym cd \<mapsto>
        slot_update t h (case map_of data (strftime_Ym cd) of
                           None \<Rightarrow> \<lparr>b_date = cd, b_display = disp, b_transcript = None, b_ppt = None\<rparr>
                         | Some b \<Rightarrow> b))"
  by (auto simp: store_sighting_def Let_def map_of_map_entry fun_eq_iff map_add_def
           split: option.splits)

lemma slot_slot_update: "slot t (slot_update t h b) = Some h"
  by (simp add: slot_def slot_update_def)

lemma slot_other_update: "t' \<noteq> t \<Longrightarrow> slot t (slot_update t' h b) = slot t b"
  by (auto simp: slot_def slot_update_def)

lemma store_sets_slot:
  "\<exists>b. map_of (store_sighting data (t, h, cd, disp)) (strftime_Ym cd) = Some b \<and> slot t b = Some h"
  by (simp add: map_of_store_sighting slot_slot_update)

lemma store_keeps_slot:
  assumes "map_of data k = Some b" and "slot t b = Some h"
      and "\<not> (t' = t \<and> strftime_Ym cd' = k)"
  shows "\<exists>b'. map_of (store_sighting data (t', h', cd', disp')) k = Some b' \<and> slot t b' = Some h"
  using assms by (auto simp: map_of_store_sighting slot_other_update)

lemma scan_keeps_slot:
  assumes "map_of data k = Some b" and "slot t b = Some h"
      and "\<forall>l' \<in> set rest. \<forall>h' cd' disp'.
             classify_concall l' = Some (t, h', cd', disp') \<longrightarrow> strftime_Ym cd' \<noteq> k"
  shows "\<exists>b'. map_of (foldl concall_step data rest) k = Some b' \<and> slot t b' = Some h"
  using assms
proof (induction rest arbitrary: data b)
  case Nil
  then show ?case by simp
next
  case (Cons l' rest)
  have "\<exists>b1. map_of (concall_step data l') k = Some b1 \<and> slot t b1 = Some h"
  proof (cases "classify_concall l'")
    case None
    with Cons.prems show ?thesis by (simp add: concall_step_classify)
  next
    case (Some s)
    obtain t' h' cd' disp' where s: "s = (t', h', cd', disp')" by (cases s) auto
    have "\<not> (t' = t \<and> strftime_Ym cd' = k)"
    proof
      assume a: "t' = t \<and> strftime_Ym cd' = k"
      with Some s have "classify_concall l' = Some (t, h', cd', disp')" by simp
      moreover have "l' \<in> set (l' # rest)" by simp
      ultimately have "strftime_Ym cd' \<noteq> k" using Cons.prems(3) by blast
      with a show False by simp
    qed
    from store_keeps_slot [OF Cons.prems(1,2) this] Some s show ?thesis
      by (simp add: concall_step_classify)
  qed
  then obtain b1 where "map_of (concall_step data l') k = Some b1" "slot t b1 = Some h" by blast
  from Cons.IH [OF this] Cons.prems(3) show ?case by simp
qed

text \<open>
  Claim C10. Let a link count as a transcript (respectively a presentation) for some
  month, and let no later link of the scan count as the same kind for the same month.
  Then, whatever was scanned before it, the bucket of that month holds this link's URL as
  its transcript (respectively presentation) at the end of the scan: each sighting
  overwrites the one before, the last one stays.
\<close>

theorem last_sighting_wins:
  assumes "classify_concall l = Some (t, h, cd, disp)"
      and "\<forall>l' \<in> set rest. \<forall>h' cd' disp'.
             classify_concall l' = Some (t, h', cd', disp') \<longrightarrow> strftime_Ym cd' \<noteq> strftime_Ym cd"
  shows "\<exists>b. map_of (concall_scan (pre @ l # rest)) (strftime_Ym cd) = Some b \<and>
             (if t then b_transcript b else b_ppt b) = Some h"
proof -
  let ?d = "foldl concall_step [] pre"
  from store_sets_slot [of ?d t h cd disp] assms(1) obtain b0 where
    "map_of (concall_step ?d l) (strftime_Ym cd) = Some b0" "slot t b0 = Some h"
    by (auto simp: concall_step_classify)
  from scan_keeps_slot [OF this assms(2)] show ?thesis
    by (simp add: concall_scan_def slot_def)
qed

theorem last_sighting_wins_witness:
  "classify_concall
     \<lparr>link_text = ''Transcript'', link_href = Some ''https://s.in/t1.pdf'', aria_label = None,
      ancestor_texts = [Some ''Aug 2023''], column_header = None\<rparr>
     = Some (True, ''https://s.in/t1.pdf'', (2023, 8, 1), ''Aug 2023'') \<and>
   classify_concall
     \<lparr>link_text = ''Transcript'', link_href = Some ''https://s.in/t2.pdf'', aria_label = None,
      ancestor_texts = [Some ''Aug 2023''], column_header = None\<rparr>
     = Some (True, ''https://s.in/t2.pdf'', (2023, 8, 1), ''Aug 2023'') \<and>
   (\<exists>b. map_of (concall_scan
           ([\<lparr>link_text = ''Transcript'', link_href = Some ''https://s.in/t1.pdf'',
               aria_label = None, ancestor_texts = [Some ''Aug 2023''], column_header = None\<rparr>] @
            \<lparr>link_text = ''Transcript'', link_href = Some ''https://s.in/t2.pdf'',
              aria_label = None, ancestor_texts = [Some ''Aug 2023''], column_header = None\<rparr> #
            [\<lparr>link_text = ''PPT'', link_href = Some ''https://s.in/p.pdf'',
               aria_label = None, ancestor_texts = [Some ''Aug 2023''], column_header = None\<rparr>]))
          (strftime_Ym (2023, 8, 1)) = Some b \<and>
        (if True then b_transcript b else b_ppt b) = Some ''https://s.in/t2.pdf'')"
proof -
  let ?l1 = "\<lparr>link_text = ''Transcript'', link_href = Some ''https://s.in/t1.pdf'',
               aria_label = None, ancestor_texts = [Some ''Aug 2023''], column_header = None\<rparr>"
  let ?l2 = "\<lparr>link_text = ''Transcript'', link_href = Some ''https://s.in/t2.pdf'',
               aria_label = None, ancestor_texts = [Some ''Aug 2023''], column_header = None\<rparr>"
  let ?l3 = "\<lparr>link_text = ''PPT'', link_href = Some ''https://s.in/p.pdf'',
               aria_label = None, ancestor_texts = [Some ''Aug 2023''], column_header = None\<rparr>"
  have c1: "classify_concall ?l1 = Some (True, ''https://s.in/t1.pdf'', (2023, 8, 1), ''Aug 2023'')"
    by (simp add: classify_concall_def date_found_def Let_def char_class_defs re_defs date_defs)
  have c2: "classify_concall ?l2 = Some (True, ''https://s.in/t2.pdf'', (2023, 8, 1), ''Aug 2023'')"
    by (simp add: classify_concall_def date_found_def Let_def char_class_defs re_defs date_defs)
  have c3: "classify_concall ?l3 = Some (False, ''https://s.in/p.pdf'', (2023, 8, 1), ''Aug 2023'')"
    by (simp add: classify_concall_def date_found_def Let_def char_class_defs re_defs date_defs)
  have r: "\<forall>l' \<in> set [?l3]. \<forall>h' cd' disp'.
             classify_concall l' = Some (True, h', cd', disp') \<longrightarrow>
             strftime_Ym cd' \<noteq> strftime_Ym (2023, 8, 1)"
    using c3 by simp
  from last_sighting_wins [OF c2 r, of "[?l1]"] c1 c2 show ?thesis by blast
qed

subsection \<open>The concall classifier\<close>

lemma take_class_Some:
  "take_class P n s = Some (a, r) \<longleftrightarrow> s = a @ r \<and> length a = n \<and> list_all P a"
  by (auto simp: take_class_def)

lemma take_class_append:
  "list_all P a \<Longrightarrow> take_class P (length a) (a @ r) = Some (a, r)"
  by (simp add: take_class_def)

lemma spaces1_Some:
  "spaces1 s = Some r \<Longrightarrow> \<exists>sp. s = sp @ r \<and> sp \<noteq> [] \<and> list_all is_space sp"
proof -
  assume a: "spaces1 s = Some r"
  then obtain c cs where s: "s = c # cs" "is_space c" "r = dropWhile is_space cs"
    by (auto simp: spaces1_def split: list.splits if_splits)
  then have "s = (c # takeWhile is_space cs) @ r" by simp
  moreover have "list_all is_space (c # takeWhile is_space cs)"
    using s(2) by (auto simp: list_all_iff dest: set_takeWhileD)
  ultimately show ?thesis by blast
qed

lemma spaces1_append:
  "sp \<noteq> [] \<Longrightarrow> list_all is_space sp \<Longrightarrow> \<not> is_space x \<Longrightarrow>
     spaces1 (sp @ x # r) = Some (x # r)"
  by (cases sp) (auto simp: spaces1_def list_all_iff dropWhile_append)

lemma match_month_year_Some:
  assumes "match_month_year s = Some (ms, yr)"
  shows "\<exists>sp post. s = ms @ sp @ yr @ post \<and> length ms = 3 \<and> list_all is_alpha ms \<and>
           sp \<noteq> [] \<and> list_all is_space sp \<and> length yr = 4 \<and> list_all is_digit yr"
proof -
  from assms obtain r1 r2 r3 where
    1: "take_class is_alpha 3 s = Some (ms, r1)" and
    2: "spaces1 r1 = Some r2" and
    3: "take_class is_digit 4 r2 = Some (yr, r3)"
    by (auto simp: match_month_year_def split: option.splits prod.splits)
  from spaces1_Some [OF 2] obtain sp where sp: "r1 = sp @ r2" "sp \<noteq> []" "list_all is_space sp"
    by blast
  from 1 3 sp show ?thesis unfolding take_class_Some by auto
qed

lemma match_month_year_pattern:
  assumes "length ms = 3" "list_all is_alpha ms" "sp \<noteq> []" "list_all is_space sp"
          "length yr = 4" "list_all is_digit yr"
  shows "match_month_year (ms @ sp @ yr @ post) = Some (ms, yr)"
proof -
  from assms(5) obtain x yr' where yr: "yr = x # yr'" by (cases yr) auto
  with assms(6) have x: "\<not> is_space x" by (simp add: not_space_digit)
  have 1: "take_class is_alpha 3 (ms @ sp @ yr @ post) = Some (ms, sp @ yr @ post)"
    using take_class_append [OF assms(2), of "sp @ yr @ post"] assms(1) by simp
  have 2: "spaces1 (sp @ yr @ post) = Some (yr @ post)"
    using spaces1_append [OF assms(3,4) x, of "yr' @ post"] yr by simp
  have 3: "take_class is_digit 4 (yr @ post) = Some (yr, post)"
    using take_class_append [OF assms(6), of post] assms(5) by simp
  show ?thesis by (simp add: match_month_year_def 1 2 3)
qed

lemma month_year_found:
  "(\<exists>dm. re_search match_month_year s = Some dm) =
   (\<exists>pre ms sp yr post. s = pre @ ms @ sp @ yr @ post \<and> length ms = 3 \<and> list_all is_alpha ms \<and>
      sp \<noteq> [] \<and> list_all is_space sp \<and> length yr = 4 \<and> list_all is_digit yr)"
proof
  assume "\<exists>dm. re_search match_month_year s = Some dm"
  then obtain ms yr where "re_search match_month_year s = Some (ms, yr)" by auto
  from re_search_Some [OF this] obtain pre post where
    "s = pre @ post" "match_month_year post = Some (ms, yr)" by blast
  with match_month_year_Some [of post ms yr] show
    "\<exists>pre ms sp yr post. s = pre @ ms @ sp @ yr @ post \<and> length ms = 3 \<and> list_all is_alpha ms \<and>
      sp \<noteq> [] \<and> list_all is_space sp \<and> length yr = 4 \<and> list_all is_digit yr"
    by blast
next
  assume "\<exists>pre ms sp yr post. s = pre @ ms @ sp @ yr @ post \<and> length ms = 3 \<and>
      list_all is_alpha ms \<and> sp \<noteq> [] \<and> list_all is_space sp \<and> length yr = 4 \<and> list_all is_digit yr"
  then obtain pre ms sp yr post where
    p: "s = pre @ ms @ sp @ yr @ post" "length ms = 3" "list_all is_alpha ms"
       "sp \<noteq> []" "list_all is_space sp" "length yr = 4" "list_all is_digit yr"
    by blast
  from match_month_year_pattern [OF p(2-7), of post]
  have "s = pre @ (ms @ sp @ yr @ post) \<and> match_month_year (ms @ sp @ yr @ post) \<noteq> None"
    using p(1) by simp
  then have "\<exists>pre post. s = pre @ post \<and> match_month_year post \<noteq> None" by blast
  then show "\<exists>dm. re_search match_month_year s = Some dm"
    unfolding re_search_found .
qed

lemma first_context_date_Some:
  "first_context_date cs = Some dm \<Longrightarrow>
     \<exists>i ctx. i < length cs \<and> cs ! i = Some ctx \<and> re_search match_month_year ctx = Some dm \<and>
       (\<forall>j < i. \<forall>c. cs ! j = Some c \<longrightarrow> re_search match_month_year c = None)"
proof (induction cs rule: first_context_date.induct)
  case 1
  then show ?case by simp
next
  case (2 rest)
  then obtain i ctx where
    i: "i < length rest" "rest ! i = Some ctx" "re_search match_month_year ctx = Some dm"
       "\<forall>j < i. \<forall>c. rest ! j = Some c \<longrightarrow> re_search match_month_year c = None"
    by auto
  have "\<forall>j < Suc i. \<forall>c. (None # rest) ! j = Some c \<longrightarrow> re_search match_month_year c = None"
    using i(4) by (auto simp: nth_Cons split: nat.splits)
  with i(1-3) have "Suc i < length (None # rest) \<and> (None # rest) ! Suc i = Some ctx \<and>
      re_search match_month_year ctx = Some dm \<and>
      (\<forall>j < Suc i. \<forall>c. (None # rest) ! j = Some c \<longrightarrow> re_search match_month_year c = None)"
    by simp
  then show ?case by blast
next
  case (3 el_text rest)
  show ?case
  proof (cases "re_search match_month_year el_text")
    case None
    with 3 obtain i ctx where
      i: "i < length rest" "rest ! i = Some ctx" "re_search match_month_year ctx = Some dm"
         "\<forall>j < i. \<forall>c. rest ! j = Some c \<longrightarrow> re_search match_month_year c = None"
      by auto
    have "\<forall>j < Suc i. \<forall>c. (Some el_text # rest) ! j = Some c \<longrightarrow>
            re_search match_month_year c = None"
      using i(4) None by (auto simp: nth_Cons split: nat.splits)
    with i(1-3) have "Suc i < length (Some el_text # rest) \<and>
        (Some el_text # rest) ! Suc i = Some ctx \<and>
        re_search match_month_year ctx = Some dm \<and>
        (\<forall>j < Suc i. \<forall>c. (Some el_text # rest) ! j = Some c \<longrightarrow>
            re_search match_month_year c = None)"
      by simp
    then show ?thesis by blast
  next
    case (Some r)
    with 3 have "r = dm" by simp
    with Some have "0 < length (Some el_text # rest) \<and> (Some el_text # rest) ! 0 = Some el_text \<and>
        re_search match_month_year el_text = Some dm \<and>
        (\<forall>j < (0::nat). \<forall>c. (Some el_text # rest) ! j = Some c \<longrightarrow>
            re_search match_month_year c = None)"
      by simp
    then show ?thesis by blast
  qed
qed

lemma first_context_date_None:
  "(\<forall>i < length cs. \<forall>c. cs ! i = Some c \<longrightarrow> re_search match_month_year c = None) \<Longrightarrow>
     first_context_date cs = None"
proof (induction cs rule: first_context_date.induct)
  case 1
  then show ?case by simp
next
  case (2 rest)
  have "\<forall>i < length rest. \<forall>c. rest ! i = Some c \<longrightarrow> re_search match_month_year c = None"
  proof (intro allI impI)
    fix i c assume "i < length rest" "rest ! i = Some c"
    then have "Suc i < length (None # rest)" "(None # rest) ! Suc i = Some c" by simp_all
    with "2.prems" show "re_search match_month_year c = None" by blast
  qed
  with "2.IH" show ?case by simp
next
  case (3 el_text rest)
  have "0 < length (Some el_text # rest)" "(Some el_text # rest) ! 0 = Some el_text" by simp_all
  with "3.prems" have n: "re_search match_month_year el_text = None" by blast
  have "\<forall>i < length rest. \<forall>c. rest ! i = Some c \<longrightarrow> re_search match_month_year c = None"
  proof (intro allI impI)
    fix i c assume "i < length rest" "rest ! i = Some c"
    then have "Suc i < length (Some el_text # rest)" "(Some el_text # rest) ! Suc i = Some c"
      by simp_all
    with "3.prems" show "re_search match_month_year c = None" by blast
  qed
  with "3.IH" [OF n] n show ?case by simp
qed

lemma date_found_Some:
  assumes "date_found l = Some (ms, yr)"
  shows "\<exists>i ctx pre sp post.
           i < 3 \<and> i < length (ancestor_texts l) \<and> ancestor_texts l ! i = Some ctx \<and>
           ctx = pre @ ms @ sp @ yr @ post \<and> length ms = 3 \<and> list_all is_alpha ms \<and>
           sp \<noteq> [] \<and> list_all is_space sp \<and> length yr = 4 \<and> list_all is_digit yr \<and>
           (\<forall>j < i. \<forall>c. ancestor_texts l ! j = Some c \<longrightarrow> re_search match_month_year c = None)"
proof -
  let ?cs = "take 3 (ancestor_texts l)"
  from assms have "first_context_date ?cs = Some (ms, yr)" by (simp add: date_found_def)
  from first_context_date_Some [OF this] obtain i ctx where
    i: "i < length ?cs" "?cs ! i = Some ctx" "re_search match_month_year ctx = Some (ms, yr)"
       "\<forall>j < i. \<forall>c. ?cs ! j = Some c \<longrightarrow> re_search match_month_year c = None"
    by blast
  from i(1) have b: "i < 3" "i < length (ancestor_texts l)" by simp_all
  with i(2) have n: "ancestor_texts l ! i = Some ctx" by simp
  have e: "\<forall>j < i. \<forall>c. ancestor_texts l ! j = Some c \<longrightarrow> re_search match_month_year c = None"
    using i(4) b by simp
  from re_search_Some [OF i(3)] obtain pre rest where
    "ctx = pre @ rest" "match_month_year rest = Some (ms, yr)" by blast
  with match_month_year_Some [of rest ms yr] obtain sp post where
    "ctx = pre @ ms @ sp @ yr @ post" "length ms = 3" "list_all is_alpha ms"
    "sp \<noteq> []" "list_all is_space sp" "length yr = 4" "list_all is_digit yr"
    by auto
  with b n e show ?thesis by blast
qed

lemma date_found_None:
  assumes "\<forall>i c. i < 3 \<and> i < length (ancestor_texts l) \<and> ancestor_texts l ! i = Some c \<longrightarrow>
             re_search match_month_year c = None"
  shows "date_found l = None"
  unfolding date_found_def
proof (rule first_context_date_None, intro allI impI)
  fix i c
  assume "i < length (take 3 (ancestor_texts l))" "take 3 (ancestor_texts l) ! i = Some c"
  then have "i < 3 \<and> i < length (ancestor_texts l) \<and> ancestor_texts l ! i = Some c" by simp
  with assms show "re_search match_month_year c = None" by blast
qed

lemma classify_concall_Some:
  assumes "classify_concall l = Some (t, h, cd, disp)"
  shows "lower (strip (link_text l)) = (if t then ''transcript'' else ''ppt'') \<and>
         link_href l = Some h \<and> h \<noteq> [] \<and>
         (\<exists>ms yr mo. date_found l = Some (ms, yr) \<and> month_of ms = Some mo \<and>
                      datetime (int_of yr) mo 1 = Some cd \<and> disp = ms @ '' '' @ yr)"
  using assms
  by (auto simp: classify_concall_def Let_def or_empty_def
           split: if_splits option.splits prod.splits)

lemma store_sighting_nonempty: "store_sighting data s \<noteq> []"
proof -
  obtain t h cd disp where s: "s = (t, h, cd, disp)" by (cases s) auto
  have "map_of (store_sighting data s) (strftime_Ym cd) \<noteq> None"
    unfolding s by (simp add: map_of_store_sighting)
  then show ?thesis by auto
qed

text \<open>
  Claim C7, amended. A link counts as a transcript (respectively as a presentation) only if its
  text, lower-cased and without surrounding white space, is exactly \<^verbatim>\<open>transcript\<close>
  (respectively \<^verbatim>\<open>ppt\<close>), and one of its first three ancestor levels has a text with three
  letters, white space and four digits in it; the first level with such a match gives the
  date, which must name a month. A link none of whose first three ancestor texts has
  such a match is rejected, and so is a link with any other text, a longer text that only
  contains the word included; a rejected link leaves the buckets as they are. A link
  counts exactly when, scanned on its own, it creates a bucket.
\<close>

theorem concall_classifier:
  "(classify_concall l = Some (t, h, cd, disp) \<longrightarrow>
      lower (strip (link_text l)) = (if t then ''transcript'' else ''ppt'') \<and>
      link_href l = Some h \<and> h \<noteq> [] \<and>
      (\<exists>i ctx pre ms sp yr post mo.
          i < 3 \<and> i < length (ancestor_texts l) \<and> ancestor_texts l ! i = Some ctx \<and>
          ctx = pre @ ms @ sp @ yr @ post \<and> length ms = 3 \<and> list_all is_alpha ms \<and>
          sp \<noteq> [] \<and> list_all is_space sp \<and> length yr = 4 \<and> list_all is_digit yr \<and>
          (\<forall>j < i. \<forall>c. ancestor_texts l ! j = Some c \<longrightarrow> re_search match_month_year c = None) \<and>
          month_of ms = Some mo \<and> datetime (int_of yr) mo 1 = Some cd \<and>
          disp = ms @ '' '' @ yr)) \<and>
   ((\<forall>i c. i < 3 \<and> i < length (ancestor_texts l) \<and> ancestor_texts l ! i = Some c \<longrightarrow>
        \<not> (\<exists>pre ms sp yr post. c = pre @ ms @ sp @ yr @ post \<and> length ms = 3 \<and>
              list_all is_alpha ms \<and> sp \<noteq> [] \<and> list_all is_space sp \<and> length yr = 4 \<and>
              list_all is_digit yr)) \<longrightarrow>
      classify_concall l = None) \<and>
   (lower (strip (link_text l)) \<noteq> ''transcript'' \<and> lower (strip (link_text l)) \<noteq> ''ppt'' \<longrightarrow>
      classify_concall l = None) \<and>
   (classify_concall l = None \<longrightarrow> concall_step data l = data) \<and>
   ((classify_concall l \<noteq> None) = (concall_step [] l \<noteq> []))"
proof -
  have acc: "lower (strip (link_text l)) = (if t then ''transcript'' else ''ppt'') \<and>
      link_href l = Some h \<and> h \<noteq> [] \<and>
      (\<exists>i ctx pre ms sp yr post mo.
          i < 3 \<and> i < length (ancestor_texts l) \<and> ancestor_texts l ! i = Some ctx \<and>
          ctx = pre @ ms @ sp @ yr @ post \<and> length ms = 3 \<and> list_all is_alpha ms \<and>
          sp \<noteq> [] \<and> list_all is_space sp \<and> length yr = 4 \<and> list_all is_digit yr \<and>
          (\<forall>j < i. \<forall>c. ancestor_texts l ! j = Some c \<longrightarrow> re_search match_month_year c = None) \<and>
          month_of ms = Some mo \<and> datetime (int_of yr) mo 1 = Some cd \<and>
          disp = ms @ '' '' @ yr)"
    if c: "classify_concall l = Some (t, h, cd, disp)"
  proof -
    from classify_concall_Some [OF c] obtain ms yr mo where
      m: "lower (strip (link_text l)) = (if t then ''transcript'' else ''ppt'')"
         "link_href l = Some h" "h \<noteq> []"
         "date_found l = Some (ms, yr)" "month_of ms = Some mo"
         "datetime (int_of yr) mo 1 = Some cd" "disp = ms @ '' '' @ yr"
      by blast
    from date_found_Some [OF m(4)] m show ?thesis by blast
  qed
  have nodate: "classify_concall l = None"
    if n: "\<forall>i c. i < 3 \<and> i < length (ancestor_texts l) \<and> ancestor_texts l ! i = Some c \<longrightarrow>
        \<not> (\<exists>pre ms sp yr post. c = pre @ ms @ sp @ yr @ post \<and> length ms = 3 \<and>
              list_all is_alpha ms \<and> sp \<noteq> [] \<and> list_all is_space sp \<and> length yr = 4 \<and>
              list_all is_digit yr)"
  proof -
    have "\<forall>i c. i < 3 \<and> i < length (ancestor_texts l) \<and> ancestor_texts l ! i = Some c \<longrightarrow>
             re_search match_month_year c = None"
    proof (intro allI impI)
      fix i c
      assume a: "i < 3 \<and> i < length (ancestor_texts l) \<and> ancestor_texts l ! i = Some c"
      with n have "\<not> (\<exists>dm. re_search match_month_year c = Some dm)"
        unfolding month_year_found by blast
      then show "re_search match_month_year c = None"
        by (cases "re_search match_month_year c") blast+
    qed
    from date_found_None [OF this] show ?thesis
      by (simp add: classify_concall_def Let_def)
  qed
  have notext: "classify_concall l = None"
    if "lower (strip (link_text l)) \<noteq> ''transcript'' \<and> lower (strip (link_text l)) \<noteq> ''ppt''"
    using that by (simp add: classify_concall_def Let_def)
  have rej: "concall_step data l = data" if "classify_concall l = None"
    using that by (simp add: concall_step_classify)
  have alone: "(classify_concall l \<noteq> None) = (concall_step [] l \<noteq> [])"
    by (cases "classify_concall l") (simp_all add: concall_step_classify store_sighting_nonempty)
  from acc nodate notext rej alone show ?thesis by blast
qed

theorem concall_classifier_witness:
  "classify_concall
     \<lparr>link_text = ''Transcript'', link_href = Some ''https://s.in/t.pdf'', aria_label = None,
      ancestor_texts = [None, Some ''Q2 call'', Some ''Concall Aug 2023 notes''],
      column_header = None\<rparr>
     = Some (True, ''https://s.in/t.pdf'', (2023, 8, 1), ''Aug 2023'') \<and>
   lower (strip (link_text
     \<lparr>link_text = ''Transcript'', link_href = Some ''https://s.in/t.pdf'', aria_label = None,
      ancestor_texts = [None, Some ''Q2 call'', Some ''Concall Aug 2023 notes''],
      column_header = None\<rparr>)) = ''transcript'' \<and>
   lower (strip (link_text
     \<lparr>link_text = ''Transcript of call'', link_href = Some ''https://s.in/t.pdf'',
      aria_label = None, ancestor_texts = [Some ''Aug 2023''], column_header = None\<rparr>))
     \<noteq> ''transcript'' \<and>
   classify_concall
     \<lparr>link_text = ''Transcript of call'', link_href = Some ''https://s.in/t.pdf'',
      aria_label = None, ancestor_texts = [Some ''Aug 2023''], column_header = None\<rparr> = None"
proof -
  let ?l = "\<lparr>link_text = ''Transcript'', link_href = Some ''https://s.in/t.pdf'', aria_label = None,
      ancestor_texts = [None, Some ''Q2 call'', Some ''Concall Aug 2023 notes''],
      column_header = None\<rparr>"
  let ?m = "\<lparr>link_text = ''Transcript of call'', link_href = Some ''https://s.in/t.pdf'',
      aria_label = None, ancestor_texts = [Some ''Aug 2023''], column_header = None\<rparr>"
  have c: "classify_concall ?l = Some (True, ''https://s.in/t.pdf'', (2023, 8, 1), ''Aug 2023'')"
    by (simp add: classify_concall_def date_found_def Let_def char_class_defs re_defs date_defs)
  have t: "lower (strip (link_text ?m)) \<noteq> ''transcript'' \<and> lower (strip (link_text ?m)) \<noteq> ''ppt''"
    by (simp add: char_class_defs strip_def)
  from concall_classifier [of ?l True "''https://s.in/t.pdf''" "(2023, 8, 1)" "''Aug 2023''",
        THEN conjunct1, THEN mp, OF c]
  have a: "lower (strip (link_text ?l)) = ''transcript''" by simp
  from concall_classifier [of ?m, THEN conjunct2, THEN conjunct2, THEN conjunct1, THEN mp, OF t]
  have r: "classify_concall ?m = None" .
  from c a t r show ?thesis by blast
qed

text \<open>
  Claim C7, as stated, fails: the comparison is made after \<^verbatim>\<open>strip()\<close>, so a link text
  that is not \<^verbatim>\<open>transcript\<close> in any case, having white space before and after the word,
  is accepted all the same.
\<close>

theorem padded_transcript_counterexample:
  "lower '' Transcript '' \<noteq> ''transcript'' \<and>
   classify_concall
     \<lparr>link_text = '' Transcript '', link_href = Some ''https://s.in/t.pdf'', aria_label = None,
      ancestor_texts = [Some ''Aug 2023''], column_header = None\<rparr>
     = Some (True, ''https://s.in/t.pdf'', (2023, 8, 1), ''Aug 2023'') \<and>
   concall_step []
     \<lparr>link_text = '' Transcript '', link_href = Some ''https://s.in/t.pdf'', aria_label = None,
      ancestor_texts = [Some ''Aug 2023''], column_header = None\<rparr>
     = [(''2023-08'', \<lparr>b_date = (2023, 8, 1), b_display = ''Aug 2023'',
                        b_transcript = Some ''https://s.in/t.pdf'', b_ppt = None\<rparr>)]"
  by (simp add: classify_concall_def concall_step_def date_found_def strftime_Ym_def Let_def
        char_class_defs re_defs date_defs)

subsection \<open>Month keys and bucket dates\<close>







































subsection \<open>The count limit and the ranked lists\<close>









subsection \<open>The credit-rating classifier\<close>

























end
